theory Spec2Isabelle
  imports Main "HOL-Library.Word" "HOL-Library.Product_Lexorder"
begin

unbundle bit_operations_syntax

section \<open>The UID index of tng.py\<close>

text \<open>
  The class \<^verbatim>\<open>UidMap\<close> of \<^verbatim>\<open>src/tng.py\<close> packs a serial number, a child slot and a
  time step into one 64-bit identifier and stores (index, uid) rows in a table of four
  levels: year, child, day, serial number. The first three levels are Python lists whose
  entries are \<^verbatim>\<open>None\<close> until first use; the fourth is a numpy array of shape (n, 2) and
  dtype uint64.

  Conventions of the embedding.
  \<^item> \<^verbatim>\<open>np.uint32\<close> is \<open>32 word\<close> and \<^verbatim>\<open>np.uint64\<close> is \<open>64 word\<close>.
  \<^item> The four bit widths are the inputs of the constructor: the source computes each as
    \<^verbatim>\<open>np.uint32(np.ceil(np.log2(x)))\<close>, which is floating point and stays outside.
  \<^item> A Python integer combined with a uint32 scalar (\<^verbatim>\<open>1 << self.child_bits\<close>,
    \<^verbatim>\<open>ssn << self.ssn_offset\<close>) is computed by numpy in a 64-bit integer, as NumPy 1
    promotes the two operands to int64: the value is kept modulo \<open>2 ^ 64\<close> and read back
    as signed where the source uses it as a length.
    A shift by 64 or more gives 0, in numpy as for \<open>push_bit\<close> and \<open>drop_bit\<close>.
  \<^item> Exceptions are values: \<open>Inl e\<close>. An indexing \<^verbatim>\<open>xs[i]\<close> out of range raises
    \<^verbatim>\<open>IndexError\<close>, subscripting \<^verbatim>\<open>None\<close> raises \<^verbatim>\<open>TypeError\<close>, and
    \<^verbatim>\<open>np.zeros\<close> with a negative dimension raises \<^verbatim>\<open>ValueError\<close>. Memory is unbounded.
  \<^item> Methods that assign to the table return the table after the call, also when they
    raise: allocations made before the exception stay.
\<close>

datatype py_error = IndexError | TypeError | ValueError

type_synonym u32 = "32 word"
type_synonym u64 = "64 word"

text \<open>Row \<open>i\<close> of the numpy array is the pair \<open>(a[i,0], a[i,1])\<close>: storage index and uid.\<close>

type_synonym ssn_array = "(u64 \<times> u64) list"
type_synonym day_list = "ssn_array option list"
type_synonym child_list = "day_list option list"
type_synonym year_list = "child_list option list"

record UidMap =
  pop_bits :: u32
  time_bits :: u32
  child_bits :: u32
  day_bits :: u32
  year_bits :: u32
  ssn_offset :: u32
  child_offset :: u32
  child_mask :: u64
  time_mask :: u64
  day_mask :: u64
  mapping :: year_list

text \<open>The literal \<^verbatim>\<open>0xFFFFFFFFFFFFFFFF\<close> that marks a row as empty.\<close>

definition sentinel :: u64 where
  "sentinel = 0xFFFFFFFFFFFFFFFF"

text \<open>
  \<^verbatim>\<open>1 << b\<close> for a uint32 scalar \<open>b\<close>, a signed 64-bit value: the bit shifted into
  position 63 is the sign, and a shift by 64 or more gives 0.
\<close>

definition lshift1 :: "u32 \<Rightarrow> int" where
  "lshift1 b =
     (if unat b < 63 then 2 ^ unat b
      else if unat b = 63 then - (2 ^ 63)
      else 0)"

text \<open>\<^verbatim>\<open>[ None for _ in range(n) ]\<close>: empty when \<open>n\<close> is not positive.\<close>

definition none_list :: "int \<Rightarrow> 'a option list" where
  "none_list n = replicate (nat n) None"

text \<open>
  \<^verbatim>\<open>__init__\<close>, from the four widths. The subtraction and the addition are uint32
  operations and wrap; \<^verbatim>\<open>np.uint32(1 << self.year_bits)\<close> keeps the low 32 bits.
\<close>

definition UidMap_init :: "u32 \<Rightarrow> u32 \<Rightarrow> u32 \<Rightarrow> u32 \<Rightarrow> UidMap" where
  "UidMap_init pb tb cb db =
     (let yb = tb - db;
          num_years = (word_of_int (lshift1 yb) :: u32)
      in \<lparr> pop_bits = pb, time_bits = tb, child_bits = cb, day_bits = db,
           year_bits = yb,
           ssn_offset = cb + tb,
           child_offset = tb,
           child_mask = word_of_int (lshift1 cb - 1),
           time_mask = word_of_int (lshift1 tb - 1),
           day_mask = word_of_int (lshift1 db - 1),
           mapping = none_list (uint num_years) \<rparr>)"


text \<open>\<^verbatim>\<open>parse_uid\<close>: returns \<open>(ssn, child, day, year)\<close>.\<close>

definition parse_uid :: "UidMap \<Rightarrow> u64 \<Rightarrow> u64 \<times> u64 \<times> u64 \<times> u64" where
  "parse_uid self uid =
     (let ssn = drop_bit (unat (ssn_offset self)) uid;
          child = drop_bit (unat (child_offset self)) uid AND child_mask self;
          time = uid AND time_mask self;
          year = drop_bit (unat (day_bits self)) time;
          day = time AND day_mask self
      in (ssn, child, day, year))"

text \<open>
  \<^verbatim>\<open>add_individual\<close>. Each level is indexed first (\<^verbatim>\<open>IndexError\<close> when out of range),
  allocated when it is \<^verbatim>\<open>None\<close>, and the allocation is visible in the table returned
  even when a later step raises.
\<close>

definition add_individual :: "UidMap \<Rightarrow> u64 \<Rightarrow> u64 \<Rightarrow> (py_error + unit) \<times> UidMap" where
  "add_individual self uid index =
     (case parse_uid self uid of (ssn, child, day, year) \<Rightarrow>
      if length (mapping self) \<le> unat year then (Inl IndexError, self)
      else
        let child_list = (case mapping self ! unat year of
                            None \<Rightarrow> none_list (lshift1 (child_bits self))
                          | Some cl \<Rightarrow> cl);
            self1 = self\<lparr>mapping := (mapping self)[unat year := Some child_list]\<rparr>
        in
        if length child_list \<le> unat child then (Inl IndexError, self1)
        else
          let day_list = (case child_list ! unat child of
                            None \<Rightarrow> none_list (lshift1 (day_bits self))
                          | Some dl \<Rightarrow> dl);
              store_day = (\<lambda>dl. self\<lparr>mapping := (mapping self)
                             [unat year := Some (child_list[unat child := Some dl])]\<rparr>);
              self2 = store_day day_list
          in
          if length day_list \<le> unat day then (Inl IndexError, self2)
          else if day_list ! unat day = None \<and> lshift1 (pop_bits self) < 0
          then (Inl ValueError, self2)
          else
            let ssn_array = (case day_list ! unat day of
                               None \<Rightarrow> replicate (nat (lshift1 (pop_bits self))) (sentinel, 0)
                             | Some a \<Rightarrow> a);
                store_ssn = (\<lambda>a. store_day (day_list[unat day := Some a]))
            in
            if length ssn_array \<le> unat ssn then (Inl IndexError, store_ssn ssn_array)
            else (Inr (), store_ssn (ssn_array[unat ssn := (index, uid)])))"

text \<open>
  \<^verbatim>\<open>get_index\<close>: \<^verbatim>\<open>self.mapping[year][child][day][ssn,0]\<close>, with no test for
  \<^verbatim>\<open>None\<close> and no test for the sentinel.
\<close>

definition get_index :: "UidMap \<Rightarrow> u64 \<Rightarrow> py_error + u64" where
  "get_index self uid =
     (case parse_uid self uid of (ssn, child, day, year) \<Rightarrow>
      if length (mapping self) \<le> unat year then Inl IndexError
      else (case mapping self ! unat year of
        None \<Rightarrow> Inl TypeError
      | Some child_list \<Rightarrow>
          if length child_list \<le> unat child then Inl IndexError
          else (case child_list ! unat child of
            None \<Rightarrow> Inl TypeError
          | Some day_list \<Rightarrow>
              if length day_list \<le> unat day then Inl IndexError
              else (case day_list ! unat day of
                None \<Rightarrow> Inl TypeError
              | Some ssn_array \<Rightarrow>
                  if length ssn_array \<le> unat ssn then Inl IndexError
                  else Inr (fst (ssn_array ! unat ssn))))))"

text \<open>
  \<^verbatim>\<open>uids\<close>, one function for each of the four nested loops. The generator holds no
  assignment, so the table it returns is the table it was given; the first component is
  the sequence of values yielded.
\<close>

definition uids_ssn :: "ssn_array \<Rightarrow> u64 list" where
  "uids_ssn ssn_array = map snd (filter (\<lambda>row. fst row \<noteq> sentinel) ssn_array)"

definition uids_day :: "day_list \<Rightarrow> u64 list" where
  "uids_day day_list =
     concat (map (\<lambda>ssn_array. case ssn_array of None \<Rightarrow> [] | Some a \<Rightarrow> uids_ssn a) day_list)"

definition uids_child :: "child_list \<Rightarrow> u64 list" where
  "uids_child child_list =
     concat (map (\<lambda>day_list. case day_list of None \<Rightarrow> [] | Some dl \<Rightarrow> uids_day dl) child_list)"

definition uids :: "UidMap \<Rightarrow> u64 list \<times> UidMap" where
  "uids self =
     (concat (map (\<lambda>child_list. case child_list of None \<Rightarrow> [] | Some cl \<Rightarrow> uids_child cl)
        (mapping self)), self)"

text \<open>
  The caller's loop \<^verbatim>\<open>for ...: mapping.add_individual(uid, index)\<close> of \<^verbatim>\<open>main\<close>: the
  calls run in order and the first exception ends the loop.
\<close>

fun add_all :: "UidMap \<Rightarrow> (u64 \<times> u64) list \<Rightarrow> (py_error + unit) \<times> UidMap" where
  "add_all self [] = (Inr (), self)"
| "add_all self ((uid, index) # ops) =
     (case add_individual self uid index of
        (Inl e, self') \<Rightarrow> (Inl e, self')
      | (Inr _, self') \<Rightarrow> add_all self' ops)"

section \<open>Vocabulary of the properties\<close>

text \<open>
  The definitions below are not code of the repository: they name what the properties
  speak about. A coordinate is \<open>(year, child, day, ssn)\<close>, as natural numbers, ordered
  lexicographically.
\<close>

text \<open>The coordinate a uid decodes to.\<close>

definition coords :: "UidMap \<Rightarrow> u64 \<Rightarrow> nat \<times> nat \<times> nat \<times> nat" where
  "coords self uid =
     (case parse_uid self uid of (ssn, child, day, year) \<Rightarrow>
        (unat year, unat child, unat day, unat ssn))"

text \<open>Entry \<open>i\<close> of a level: \<open>None\<close> when out of range or not allocated.\<close>

definition entry :: "'a option list \<Rightarrow> nat \<Rightarrow> 'a option" where
  "entry xs i = (if i < length xs then xs ! i else None)"

text \<open>The allocated entries of a level with their positions, in ascending order.\<close>

definition allocated :: "'a option list \<Rightarrow> (nat \<times> 'a) list" where
  "allocated xs =
     concat (map (\<lambda>i. case xs ! i of None \<Rightarrow> [] | Some x \<Rightarrow> [(i, x)]) [0..<length xs])"

text \<open>One level of nesting: the keys of the inner lists are prefixed by the outer key.\<close>

definition nest :: "('k \<times> 'a) list \<Rightarrow> ('a \<Rightarrow> ('j \<times> 'b) list) \<Rightarrow> (('k \<times> 'j) \<times> 'b) list" where
  "nest xs f = concat (map (\<lambda>(k, v). map (\<lambda>(j, w). ((k, j), w)) (f v)) xs)"

text \<open>
  The bound rows of a table with their coordinates, as the specification words the
  enumeration: year ascending, then child slot, then day, then serial number, leaving out
  the unallocated entries and the rows whose index is the sentinel.
\<close>

definition rows_ssn :: "ssn_array \<Rightarrow> (nat \<times> (u64 \<times> u64)) list" where
  "rows_ssn a = filter (\<lambda>p. fst (snd p) \<noteq> sentinel) (zip [0..<length a] a)"

definition rows_day :: "day_list \<Rightarrow> ((nat \<times> nat) \<times> (u64 \<times> u64)) list" where
  "rows_day dl = nest (allocated dl) rows_ssn"

definition rows_child :: "child_list \<Rightarrow> ((nat \<times> nat \<times> nat) \<times> (u64 \<times> u64)) list" where
  "rows_child cl = nest (allocated cl) rows_day"

definition rows :: "UidMap \<Rightarrow> ((nat \<times> nat \<times> nat \<times> nat) \<times> (u64 \<times> u64)) list" where
  "rows self = nest (allocated (mapping self)) rows_child"

text \<open>
  The binding at a coordinate: the row stored there when every level on the way is
  allocated and the row's index is not the sentinel.
\<close>

definition binding_ssn :: "ssn_array \<Rightarrow> nat \<Rightarrow> (u64 \<times> u64) option" where
  "binding_ssn a ssn =
     (if ssn < length a \<and> fst (a ! ssn) \<noteq> sentinel then Some (a ! ssn) else None)"

fun binding_day :: "day_list \<Rightarrow> nat \<times> nat \<Rightarrow> (u64 \<times> u64) option" where
  "binding_day dl (day, ssn) =
     (case entry dl day of None \<Rightarrow> None | Some a \<Rightarrow> binding_ssn a ssn)"

fun binding_child :: "child_list \<Rightarrow> nat \<times> nat \<times> nat \<Rightarrow> (u64 \<times> u64) option" where
  "binding_child cl (child, k) =
     (case entry cl child of None \<Rightarrow> None | Some dl \<Rightarrow> binding_day dl k)"

fun binding_year :: "year_list \<Rightarrow> nat \<times> nat \<times> nat \<times> nat \<Rightarrow> (u64 \<times> u64) option" where
  "binding_year m (year, k) =
     (case entry m year of None \<Rightarrow> None | Some cl \<Rightarrow> binding_child cl k)"

definition binding :: "UidMap \<Rightarrow> nat \<times> nat \<times> nat \<times> nat \<Rightarrow> (u64 \<times> u64) option" where
  "binding self k = binding_year (mapping self) k"

text \<open>The fields \<^verbatim>\<open>__init__\<close> sets and no method assigns afterwards.\<close>

definition layout :: "UidMap \<Rightarrow> UidMap" where
  "layout self = self\<lparr>mapping := []\<rparr>"

text \<open>
  A table tracks a history of (uid, index) insertions when its bindings are the last
  index given to each uid, each stored at the coordinate of its uid.
\<close>

definition tracks :: "UidMap \<Rightarrow> (u64 \<times> u64) list \<Rightarrow> bool" where
  "tracks self hist \<longleftrightarrow>
     (\<forall>k i u. binding self k = Some (i, u) \<longrightarrow>
        map_of (rev hist) u = Some i \<and> coords self u = k) \<and>
     (\<forall>i u. map_of (rev hist) u = Some i \<and> i \<noteq> sentinel \<longrightarrow>
        binding self (coords self u) = Some (i, u))"




section \<open>Bit fields\<close>

lemma lshift1_mask: "(word_of_int (lshift1 b - 1) :: u64) = mask (unat b)"
proof -
  consider "unat b < 63" | "unat b = 63" | "64 \<le> unat b" by linarith
  then show ?thesis
  proof cases
    case 1
    then show ?thesis by (simp add: lshift1_def mask_eq_exp_minus_1 word_of_int_2p)
  next
    case 2
    then show ?thesis by (simp add: lshift1_def mask_eq_exp_minus_1)
  next
    case 3
    then have "mask (unat b) = (- 1 :: u64)"
      by (intro bit_word_eqI) (simp add: bit_mask_iff)
    with 3 show ?thesis by (simp add: lshift1_def)
  qed
qed

lemma lshift1_mask': "(word_of_int (lshift1 b) - 1 :: u64) = mask (unat b)"
  using lshift1_mask [of b] by simp




lemma drop_bit_ge_64: "64 \<le> n \<Longrightarrow> drop_bit n (w :: u64) = 0"
  by (intro bit_word_eqI) (auto simp: bit_drop_bit_eq dest: bit_imp_le_length)

lemma parse_uid_init:
  "parse_uid (UidMap_init pb tb cb db) uid =
     (drop_bit (unat (cb + tb)) uid,
      take_bit (unat cb) (drop_bit (unat tb) uid),
      take_bit (unat db) (take_bit (unat tb) uid),
      drop_bit (unat db) (take_bit (unat tb) uid))"
  by (simp add: parse_uid_def UidMap_init_def Let_def lshift1_mask' take_bit_eq_mask)


lemma word_split_eq:
  fixes w w' :: "'a::len word"
  assumes "take_bit n w = take_bit n w'" "drop_bit n w = drop_bit n w'"
  shows "w = w'"
proof -
  have "w = push_bit n (drop_bit n w) + take_bit n w" by (simp add: bits_ident)
  also have "\<dots> = push_bit n (drop_bit n w') + take_bit n w'" using assms by simp
  also have "\<dots> = w'" by (simp add: bits_ident)
  finally show ?thesis .
qed

lemma parse_uid_inj:
  assumes "parse_uid (UidMap_init pb tb cb db) u = parse_uid (UidMap_init pb tb cb db) u'"
  shows "u = u'"
proof -
  let ?t = "unat tb" and ?c = "unat cb"
  from assms have ssn: "drop_bit (unat (cb + tb)) u = drop_bit (unat (cb + tb)) u'"
    and child: "take_bit ?c (drop_bit ?t u) = take_bit ?c (drop_bit ?t u')"
    and day: "take_bit (unat db) (take_bit ?t u) = take_bit (unat db) (take_bit ?t u')"
    and year: "drop_bit (unat db) (take_bit ?t u) = drop_bit (unat db) (take_bit ?t u')"
    by (simp_all add: parse_uid_init)
  from day year have time: "take_bit ?t u = take_bit ?t u'" by (rule word_split_eq)
  have "drop_bit ?c (drop_bit ?t u) = drop_bit ?c (drop_bit ?t u')"
  proof (cases "?c + ?t < 2 ^ 32")
    case True
    then have "unat (cb + tb) = ?c + ?t" by (simp add: unat_word_ariths)
    with ssn show ?thesis by (simp add: drop_bit_drop_bit add.commute)
  next
    case False
    then have "64 \<le> ?c + ?t" by simp
    then have "drop_bit (?c + ?t) w = 0" for w :: u64
      by (rule drop_bit_ge_64)
    then show ?thesis by (simp only: drop_bit_drop_bit)
  qed
  with child have "drop_bit ?t u = drop_bit ?t u'" by (rule word_split_eq)
  with time show ?thesis by (rule word_split_eq)
qed





section \<open>Enumerating a table\<close>

lemma allocated_Nil: "allocated [] = []"
  by (simp add: allocated_def)

lemma allocated_snoc:
  "allocated (xs @ [x]) = allocated xs @ (case x of None \<Rightarrow> [] | Some v \<Rightarrow> [(length xs, v)])"
proof -
  let ?g = "\<lambda>ys i. case ys ! i of None \<Rightarrow> [] | Some v \<Rightarrow> [(i, v)]"
  have "map (?g (xs @ [x])) [0..<length xs] = map (?g xs) [0..<length xs]"
    by (intro map_cong refl) (simp add: nth_append)
  then have "concat (map (?g (xs @ [x])) [0..<length xs]) = concat (map (?g xs) [0..<length xs])"
    by (rule arg_cong)
  then show ?thesis
    by (simp add: allocated_def del: map_eq_conv)
qed

lemma set_allocated: "(i, v) \<in> set (allocated xs) \<longleftrightarrow> entry xs i = Some v"
  by (auto simp: allocated_def entry_def split: option.splits)

lemma sorted_allocated: "sorted_wrt (<) (map fst (allocated xs))"
proof (induction xs rule: rev_induct)
  case Nil
  show ?case by (simp add: allocated_Nil)
next
  case (snoc x xs)
  have "i < length xs" if "(i, v) \<in> set (allocated xs)" for i v
    using that by (simp add: set_allocated entry_def split: if_splits)
  with snoc show ?case
    by (auto simp: allocated_snoc sorted_wrt_append split: option.splits)
qed

lemma concat_allocated:
  "concat (map (\<lambda>x. case x of None \<Rightarrow> [] | Some v \<Rightarrow> f v) xs) = concat (map (\<lambda>p. f (snd p)) (allocated xs))"
  by (induction xs rule: rev_induct) (auto simp: allocated_Nil allocated_snoc split: option.splits)

lemma set_nest: "((k, j), w) \<in> set (nest xs f) \<longleftrightarrow> (\<exists>v. (k, v) \<in> set xs \<and> (j, w) \<in> set (f v))"
  by (fastforce simp: nest_def)

lemma map_snd_nest: "map snd (nest xs f) = concat (map (\<lambda>p. map snd (f (snd p))) xs)"
  by (induction xs) (auto simp: nest_def)

lemma fst_nest: "p \<in> set (nest xs f) \<Longrightarrow> fst (fst p) \<in> fst ` set xs"
  by (force simp: nest_def)

lemma sorted_nest:
  fixes xs :: "(('k :: linorder) \<times> 'a) list" and f :: "'a \<Rightarrow> (('j :: linorder) \<times> 'b) list"
  assumes "sorted_wrt (<) (map fst xs)" and "\<And>k v. (k, v) \<in> set xs \<Longrightarrow> sorted_wrt (<) (map fst (f v))"
  shows "sorted_wrt (<) (map fst (nest xs f))"
  using assms
proof (induction xs)
  case Nil
  show ?case by (simp add: nest_def)
next
  case (Cons x xs)
  obtain k v where x: "x = (k, v)" by (cases x)
  have split: "nest (x # xs) f = map (\<lambda>(j, w). ((k, j), w)) (f v) @ nest xs f"
    by (simp add: nest_def x)
  have 1: "sorted_wrt (<) (map fst (map (\<lambda>(j, w). ((k, j), w)) (f v)))"
  proof -
    have "sorted_wrt (<) (map fst (f v))" using Cons.prems(2) [of k v] by (simp add: x)
    then have "sorted_wrt (\<lambda>p q. fst p < fst q) (f v)"
      by (simp add: sorted_wrt_map)
    then show ?thesis
      by (simp add: sorted_wrt_map case_prod_beta)
  qed
  have 2: "sorted_wrt (<) (map fst (nest xs f))"
  proof (rule Cons.IH)
    show "sorted_wrt (<) (map fst xs)" using Cons.prems(1) by simp
    show "sorted_wrt (<) (map fst (f v'))" if "(k', v') \<in> set xs" for k' v'
      using Cons.prems(2) [of k' v'] that by simp
  qed
  have 3: "fst p < fst q" if "p \<in> set (map (\<lambda>(j, w). ((k, j), w)) (f v))" "q \<in> set (nest xs f)" for p q
  proof -
    from that(1) have "fst (fst p) = k" by auto
    moreover from that(2) have "fst (fst q) \<in> fst ` set xs" by (rule fst_nest)
    moreover have "\<forall>k' \<in> fst ` set xs. k < k'" using Cons.prems(1) by (simp add: x)
    ultimately show ?thesis by (auto simp: less_prod_def)
  qed
  show ?case
    unfolding split using 1 2 3 by (simp add: sorted_wrt_append)
qed

lemma set_rows_ssn:
  "(i, row) \<in> set (rows_ssn a) \<longleftrightarrow> i < length a \<and> a ! i = row \<and> fst row \<noteq> sentinel"
proof
  assume "(i, row) \<in> set (rows_ssn a)"
  then show "i < length a \<and> a ! i = row \<and> fst row \<noteq> sentinel"
    by (auto simp: rows_ssn_def set_zip)
next
  assume r: "i < length a \<and> a ! i = row \<and> fst row \<noteq> sentinel"
  then have "(i, row) = zip [0..<length a] a ! i" by simp
  moreover have "i < length (zip [0..<length a] a)" using r by simp
  ultimately have "(i, row) \<in> set (zip [0..<length a] a)" by (metis nth_mem)
  with r show "(i, row) \<in> set (rows_ssn a)" by (simp add: rows_ssn_def)
qed

lemma sorted_rows_ssn: "sorted_wrt (<) (map fst (rows_ssn a))"
proof -
  have "sorted_wrt (<) (map fst (zip [0..<length a] a))" by simp
  then have "sorted_wrt (\<lambda>p q. fst p < fst q) (zip [0..<length a] a)"
    by (simp only: sorted_wrt_map)
  then have "sorted_wrt (\<lambda>p q. fst p < fst q) (rows_ssn a)"
    unfolding rows_ssn_def by (rule sorted_wrt_filter)
  then show ?thesis by (simp only: sorted_wrt_map)
qed

lemma map_snd_rows_ssn: "map snd (rows_ssn a) = filter (\<lambda>row. fst row \<noteq> sentinel) a"
proof -
  have "filter (\<lambda>row. fst row \<noteq> sentinel) (map snd (zip [0..<length a] a))
        = map snd (filter ((\<lambda>row. fst row \<noteq> sentinel) \<circ> snd) (zip [0..<length a] a))"
    by (rule filter_map)
  then show ?thesis by (simp add: rows_ssn_def comp_def case_prod_beta)
qed

lemma uids_ssn_rows: "uids_ssn a = map (snd \<circ> snd) (rows_ssn a)"
  by (simp add: uids_ssn_def flip: map_snd_rows_ssn)

lemma uids_day_rows: "uids_day dl = map (snd \<circ> snd) (rows_day dl)"
proof -
  have "map (snd \<circ> snd) (rows_day dl) = map snd (map snd (rows_day dl))" by simp
  also have "\<dots> = concat (map (\<lambda>p. uids_ssn (snd p)) (allocated dl))"
    by (simp add: rows_day_def map_snd_nest map_concat comp_def case_prod_beta uids_ssn_rows)
  finally show ?thesis by (simp add: uids_day_def concat_allocated)
qed

lemma uids_child_rows: "uids_child cl = map (snd \<circ> snd) (rows_child cl)"
proof -
  have "map (snd \<circ> snd) (rows_child cl) = map snd (map snd (rows_child cl))" by simp
  also have "\<dots> = concat (map (\<lambda>p. uids_day (snd p)) (allocated cl))"
    by (simp add: rows_child_def map_snd_nest map_concat comp_def case_prod_beta uids_day_rows)
  finally show ?thesis by (simp add: uids_child_def concat_allocated)
qed

lemma uids_rows: "fst (uids self) = map (snd \<circ> snd) (rows self)"
proof -
  have "map (snd \<circ> snd) (rows self) = map snd (map snd (rows self))" by simp
  also have "\<dots> = concat (map (\<lambda>p. uids_child (snd p)) (allocated (mapping self)))"
    by (simp add: rows_def map_snd_nest map_concat comp_def case_prod_beta uids_child_rows)
  finally show ?thesis by (simp add: uids_def concat_allocated)
qed

lemma sorted_rows: "sorted_wrt (<) (map fst (rows self))"
  unfolding rows_def rows_child_def rows_day_def
  by (intro sorted_nest sorted_allocated sorted_rows_ssn)

section \<open>The effect of an insertion on the bindings\<close>

lemma entry_update: "entry (xs[i := v]) j = (if j = i \<and> i < length xs then v else entry xs j)"
  by (simp add: entry_def)

lemma entry_none_list: "entry (none_list n) j = None"
  by (simp add: entry_def none_list_def)

lemma binding_ssn_update:
  "s0 < length a \<Longrightarrow> binding_ssn (a[s0 := (index, uid)]) s =
     (if s = s0 then (if index = sentinel then None else Some (index, uid)) else binding_ssn a s)"
  by (simp add: binding_ssn_def)

lemma binding_ssn_fresh: "binding_ssn (replicate n (sentinel, 0)) s = None"
  by (simp add: binding_ssn_def)

lemma binding_day_update:
  "d0 < length dl \<Longrightarrow> binding_day (dl[d0 := Some a]) (d, s) =
     (if d = d0 then binding_ssn a s else binding_day dl (d, s))"
  by (simp add: entry_update)

lemma binding_child_update:
  "c0 < length cl \<Longrightarrow> binding_child (cl[c0 := Some dl]) (c, k) =
     (if c = c0 then binding_day dl k else binding_child cl (c, k))"
  by (simp add: entry_update)

lemma binding_year_update:
  "y0 < length m \<Longrightarrow> binding_year (m[y0 := Some cl]) (y, k) =
     (if y = y0 then binding_child cl k else binding_year m (y, k))"
  by (simp add: entry_update)

lemma binding_child_alloc:
  "y < length m \<Longrightarrow>
   binding_child (case m ! y of None \<Rightarrow> none_list n | Some cl \<Rightarrow> cl) k = binding_year m (y, k)"
  by (cases k) (simp add: entry_def none_list_def split: option.splits)

lemma binding_day_alloc:
  "c < length cl \<Longrightarrow>
   binding_day (case cl ! c of None \<Rightarrow> none_list n | Some dl \<Rightarrow> dl) k = binding_child cl (c, k)"
  by (cases k) (simp add: entry_def none_list_def split: option.splits)

lemma binding_ssn_alloc:
  "d < length dl \<Longrightarrow>
   binding_ssn (case dl ! d of None \<Rightarrow> replicate n (sentinel, 0) | Some a \<Rightarrow> a) s = binding_day dl (d, s)"
  by (simp add: entry_def binding_ssn_fresh split: option.splits)

lemma add_individual_layout:
  "snd (add_individual self uid index) = self\<lparr>mapping := mapping (snd (add_individual self uid index))\<rparr>"
  by (simp add: add_individual_def Let_def split: prod.splits)

lemma add_individual_cases:
  assumes p: "parse_uid self uid = (ssn, child, day, year)"
    and cl: "cl = (case mapping self ! unat year of None \<Rightarrow> none_list (lshift1 (child_bits self)) | Some cl \<Rightarrow> cl)"
    and dl: "dl = (case cl ! unat child of None \<Rightarrow> none_list (lshift1 (day_bits self)) | Some dl \<Rightarrow> dl)"
    and a: "a = (case dl ! unat day of None \<Rightarrow> replicate (nat (lshift1 (pop_bits self))) (sentinel, 0) | Some a \<Rightarrow> a)"
  shows "add_individual self uid index =
      (if length (mapping self) \<le> unat year then (Inl IndexError, self)
       else if length cl \<le> unat child
         then (Inl IndexError, self\<lparr>mapping := (mapping self)[unat year := Some cl]\<rparr>)
       else if length dl \<le> unat day
         then (Inl IndexError, self\<lparr>mapping := (mapping self)[unat year := Some (cl[unat child := Some dl])]\<rparr>)
       else if dl ! unat day = None \<and> lshift1 (pop_bits self) < 0
         then (Inl ValueError, self\<lparr>mapping := (mapping self)[unat year := Some (cl[unat child := Some dl])]\<rparr>)
       else if length a \<le> unat ssn
         then (Inl IndexError, self\<lparr>mapping := (mapping self)[unat year := Some (cl[unat child := Some (dl[unat day := Some a])])]\<rparr>)
       else (Inr (), self\<lparr>mapping := (mapping self)[unat year := Some (cl[unat child := Some (dl[unat day := Some (a[unat ssn := (index, uid)])])])]\<rparr>))"
  by (simp add: add_individual_def p Let_def cl dl a)

lemma binding_add:
  assumes "add_individual self uid index = (r, self')"
  shows "binding self' k =
         (if r = Inr () \<and> k = coords self uid
          then (if index = sentinel then None else Some (index, uid))
          else binding self k)"
proof -
  obtain ssn child day year where p: "parse_uid self uid = (ssn, child, day, year)"
    by (cases "parse_uid self uid")
  obtain y c d s where k: "k = (y, c, d, s)" by (cases k)
  let ?m = "mapping self"
  define cl where "cl = (case ?m ! unat year of None \<Rightarrow> none_list (lshift1 (child_bits self)) | Some cl \<Rightarrow> cl)"
  define dl where "dl = (case cl ! unat child of None \<Rightarrow> none_list (lshift1 (day_bits self)) | Some dl \<Rightarrow> dl)"
  define a where "a = (case dl ! unat day of None \<Rightarrow> replicate (nat (lshift1 (pop_bits self))) (sentinel, 0) | Some a \<Rightarrow> a)"
  note add = add_individual_cases [OF p cl_def dl_def a_def, of index]
  have co: "coords self uid = (unat year, unat child, unat day, unat ssn)"
    by (simp add: coords_def p)
  have A: "binding_child cl k' = binding_year ?m (unat year, k')" if "unat year < length ?m" for k'
    unfolding cl_def using that by (rule binding_child_alloc)
  have B: "binding_day dl k' = binding_child cl (unat child, k')" if "unat child < length cl" for k'
    unfolding dl_def using that by (rule binding_day_alloc)
  have C: "binding_ssn a s' = binding_day dl (unat day, s')" if "unat day < length dl" for s'
    unfolding a_def using that by (rule binding_ssn_alloc)
  show ?thesis
    using assms unfolding add k co binding_def
    by (auto simp: binding_year_update binding_child_update binding_day_update binding_ssn_update A B C
          simp del: binding_year.simps binding_child.simps binding_day.simps split: if_splits)
qed

section \<open>Tables built by insertions\<close>

lemma tracks_binding:
  "tracks self hist \<Longrightarrow> binding self k = Some (i, u) \<Longrightarrow> map_of (rev hist) u = Some i \<and> coords self u = k"
  unfolding tracks_def by blast

lemma tracks_history:
  "tracks self hist \<Longrightarrow> map_of (rev hist) u = Some i \<Longrightarrow> i \<noteq> sentinel \<Longrightarrow> binding self (coords self u) = Some (i, u)"
  unfolding tracks_def by blast

lemma set_rows_binding: "(k, row) \<in> set (rows self) \<longleftrightarrow> binding self k = Some row"
proof -
  obtain year child day ssn where k: "k = (year, child, day, ssn)" by (cases k)
  show ?thesis
    unfolding k rows_def rows_child_def rows_day_def binding_def
    by (auto simp: set_nest set_allocated set_rows_ssn binding_ssn_def split: option.splits if_splits)
qed

lemma binding_not_sentinel: "binding self k = Some (i, u) \<Longrightarrow> i \<noteq> sentinel"
proof -
  assume "binding self k = Some (i, u)"
  then have "(k, i, u) \<in> set (rows self)" by (simp add: set_rows_binding)
  then show ?thesis
    unfolding rows_def rows_child_def rows_day_def
    by (cases k) (auto simp: set_nest set_rows_ssn)
qed

lemma layout_add: "add_individual self uid index = (r, self') \<Longrightarrow> layout self' = layout self"
proof -
  assume "add_individual self uid index = (r, self')"
  then have "self' = self\<lparr>mapping := mapping self'\<rparr>"
    using add_individual_layout [of self uid index] by simp
  then have "layout self' = layout (self\<lparr>mapping := mapping self'\<rparr>)" by simp
  then show ?thesis by (simp add: layout_def)
qed

lemma parse_uid_layout: "parse_uid (layout self) = parse_uid self"
  by (rule ext) (simp add: parse_uid_def layout_def)

lemma coords_layout: "coords (layout self) = coords self"
  by (rule ext) (simp add: coords_def parse_uid_layout)

lemma coords_eq: "layout self = layout self' \<Longrightarrow> coords self = coords self'"
  by (metis coords_layout)

lemma coords_inj:
  assumes "layout self = layout (UidMap_init pb tb cb db)" and "coords self u = coords self u'"
  shows "u = u'"
proof -
  let ?L = "UidMap_init pb tb cb db"
  have "coords ?L u = coords ?L u'"
    using assms coords_eq by metis
  moreover obtain s c d y where p: "parse_uid ?L u = (s, c, d, y)" by (cases "parse_uid ?L u")
  moreover obtain s' c' d' y' where p': "parse_uid ?L u' = (s', c', d', y')" by (cases "parse_uid ?L u'")
  ultimately have "unat s = unat s'" "unat c = unat c'" "unat d = unat d'" "unat y = unat y'"
    by (simp_all add: coords_def)
  then have "s = s'" "c = c'" "d = d'" "y = y'"
    by (simp_all add: word_unat_eq_iff)
  with p p' have "parse_uid ?L u = parse_uid ?L u'" by simp
  then show ?thesis by (rule parse_uid_inj)
qed

lemma binding_init: "binding (UidMap_init pb tb cb db) k = None"
  by (cases k) (simp add: binding_def UidMap_init_def Let_def entry_none_list)

lemma tracks_init: "tracks (UidMap_init pb tb cb db) []"
  by (simp add: tracks_def binding_init)

lemma tracks_add:
  assumes lay: "layout self = layout (UidMap_init pb tb cb db)"
    and tr: "tracks self hist"
    and add: "add_individual self uid index = (Inr (), self')"
  shows "tracks self' (hist @ [(uid, index)])"
proof -
  have co: "coords self' = coords self"
    using layout_add [OF add] by (rule coords_eq)
  have hit: "binding self' (coords self uid) = (if index = sentinel then None else Some (index, uid))"
    using binding_add [OF add, of "coords self uid"] by simp
  have miss: "binding self' k = binding self k" if "k \<noteq> coords self uid" for k
    using binding_add [OF add, of k] that by simp
  have m: "map_of (rev (hist @ [(uid, index)])) u = (if u = uid then Some index else map_of (rev hist) u)" for u
    by simp
  show ?thesis
    unfolding tracks_def co m
  proof (intro conjI allI impI)
    fix k i u
    assume b: "binding self' k = Some (i, u)"
    show "(if u = uid then Some index else map_of (rev hist) u) = Some i"
    proof (cases "k = coords self uid")
      case True
      with b hit show ?thesis by (simp split: if_splits)
    next
      case False
      with b miss have b0: "binding self k = Some (i, u)" by simp
      then have "map_of (rev hist) u = Some i" "coords self u = k"
        using tracks_binding [OF tr] by blast+
      with False show ?thesis by auto
    qed
    show "coords self u = k"
    proof (cases "k = coords self uid")
      case True
      with b hit show ?thesis by (simp split: if_splits)
    next
      case False
      with b miss have "binding self k = Some (i, u)" by simp
      then show ?thesis using tracks_binding [OF tr] by blast
    qed
  next
    fix i u
    assume h: "(if u = uid then Some index else map_of (rev hist) u) = Some i \<and> i \<noteq> sentinel"
    show "binding self' (coords self u) = Some (i, u)"
    proof (cases "u = uid")
      case True
      with h hit show ?thesis by simp
    next
      case False
      then have "coords self u \<noteq> coords self uid"
        using coords_inj [OF lay] by blast
      then have "binding self' (coords self u) = binding self (coords self u)" by (rule miss)
      also have "\<dots> = Some (i, u)"
        using h False tracks_history [OF tr, of u i] by simp
      finally show ?thesis .
    qed
  qed
qed

lemma tracks_add_all:
  assumes "layout self = layout (UidMap_init pb tb cb db)" and "tracks self hist"
    and "add_all self ops = (Inr (), self')"
  shows "layout self' = layout self \<and> tracks self' (hist @ ops)"
  using assms
proof (induction ops arbitrary: self hist)
  case Nil
  then show ?case by simp
next
  case (Cons op ops)
  obtain uid index where op: "op = (uid, index)" by (cases op)
  obtain r s1 where a: "add_individual self uid index = (r, s1)"
    by (cases "add_individual self uid index")
  from Cons.prems(3) have r: "r = Inr ()" and rest: "add_all s1 ops = (Inr (), self')"
    by (simp_all add: op a split: sum.splits)
  have l1: "layout s1 = layout self" using a by (rule layout_add)
  have t1: "tracks s1 (hist @ [(uid, index)])"
    using Cons.prems(1,2) a unfolding r by (rule tracks_add)
  have l1': "layout s1 = layout (UidMap_init pb tb cb db)" by (simp add: l1 Cons.prems(1))
  have "layout self' = layout s1 \<and> tracks self' ((hist @ [(uid, index)]) @ ops)"
    using l1' t1 rest by (rule Cons.IH)
  then show ?case by (simp add: l1 op)
qed

lemma uids_set_tracks:
  assumes tr: "tracks self hist"
  shows "set (fst (uids self)) = {u. \<exists>i. map_of (rev hist) u = Some i \<and> i \<noteq> sentinel}"
proof (intro set_eqI iffI)
  fix u
  assume "u \<in> set (fst (uids self))"
  then obtain k i where "(k, i, u) \<in> set (rows self)"
    by (force simp: uids_rows)
  then have b: "binding self k = Some (i, u)" by (simp add: set_rows_binding)
  then have "map_of (rev hist) u = Some i" using tracks_binding [OF tr] by blast
  moreover have "i \<noteq> sentinel" using b by (rule binding_not_sentinel)
  ultimately show "u \<in> {u. \<exists>i. map_of (rev hist) u = Some i \<and> i \<noteq> sentinel}" by blast
next
  fix u
  assume "u \<in> {u. \<exists>i. map_of (rev hist) u = Some i \<and> i \<noteq> sentinel}"
  then obtain i where "map_of (rev hist) u = Some i" "i \<noteq> sentinel" by blast
  then have "binding self (coords self u) = Some (i, u)" by (rule tracks_history [OF tr])
  then have "(coords self u, i, u) \<in> set (rows self)" by (simp add: set_rows_binding)
  then have "(snd \<circ> snd) (coords self u, i, u) \<in> (snd \<circ> snd) ` set (rows self)"
    by (rule imageI)
  then show "u \<in> set (fst (uids self))" by (simp add: uids_rows)
qed

lemma uids_distinct_tracks:
  assumes tr: "tracks self hist"
  shows "distinct (fst (uids self))"
proof -
  have "distinct (map fst (rows self))"
    using sorted_rows [of self] by (simp add: strict_sorted_iff)
  then have d: "distinct (rows self)" by (simp add: distinct_map)
  have "inj_on (snd \<circ> snd) (set (rows self))"
  proof (rule inj_onI)
    fix p q
    assume p: "p \<in> set (rows self)" and q: "q \<in> set (rows self)" and e: "(snd \<circ> snd) p = (snd \<circ> snd) q"
    obtain k i u where pp: "p = (k, i, u)" by (cases p) auto
    obtain k' i' u' where qq: "q = (k', i', u')" by (cases q) auto
    from p q have b: "binding self k = Some (i, u)" "binding self k' = Some (i', u')"
      by (simp_all add: pp qq set_rows_binding)
    from e have u: "u' = u" by (simp add: pp qq)
    from b have "map_of (rev hist) u = Some i \<and> coords self u = k"
      "map_of (rev hist) u = Some i' \<and> coords self u = k'"
      using tracks_binding [OF tr] unfolding u by blast+
    then show "p = q" by (simp add: pp qq u)
  qed
  with d show ?thesis by (simp add: uids_rows distinct_map)
qed

section \<open>Dimensions\<close>







lemma num_years:
  assumes "unat yb < 32"
  shows "unat (word_of_int (lshift1 yb) :: u32) = 2 ^ unat yb"
proof -
  have "(2::u32) ^ unat yb \<noteq> 0"
    using assms by (simp add: exp_eq_zero_iff)
  then have "(0::u32) < 2 ^ unat yb"
    by (simp add: word_gt_0)
  then have u: "uint ((2::u32) ^ unat yb) = 2 ^ unat yb"
    by (rule uint_2p)
  have "unat ((2::u32) ^ unat yb) = nat (uint ((2::u32) ^ unat yb))"
    by (rule unat_eq_nat_uint)
  also have "\<dots> = nat (2 ^ unat yb)"
    by (simp only: u)
  also have "\<dots> = 2 ^ unat yb"
    by (simp add: nat_power_eq)
  finally show ?thesis
    using assms by (simp add: lshift1_def)
qed






section \<open>Lookup after insertion\<close>

lemma parse_uid_mapping: "parse_uid (self\<lparr>mapping := m\<rparr>) = parse_uid self"
  by (rule ext) (simp add: parse_uid_def)

lemma get_index_add:
  assumes "add_individual self uid index = (Inr (), self')"
  shows "get_index self' uid = Inr index"
proof -
  obtain ssn child day year where p: "parse_uid self uid = (ssn, child, day, year)"
    by (cases "parse_uid self uid")
  define cl where "cl = (case mapping self ! unat year of None \<Rightarrow> none_list (lshift1 (child_bits self)) | Some cl \<Rightarrow> cl)"
  define dl where "dl = (case cl ! unat child of None \<Rightarrow> none_list (lshift1 (day_bits self)) | Some dl \<Rightarrow> dl)"
  define a where "a = (case dl ! unat day of None \<Rightarrow> replicate (nat (lshift1 (pop_bits self))) (sentinel, 0) | Some a \<Rightarrow> a)"
  note flat = add_individual_cases [OF p cl_def dl_def a_def, of index]
  from assms have r: "unat year < length (mapping self)" "unat child < length cl"
      "unat day < length dl" "unat ssn < length a"
    and s: "self' = self\<lparr>mapping := (mapping self)[unat year := Some (cl[unat child :=
              Some (dl[unat day := Some (a[unat ssn := (index, uid)])])])]\<rparr>"
    unfolding flat by (simp_all split: if_splits)
  show ?thesis
    unfolding s get_index_def parse_uid_mapping p using r by simp
qed

text \<open>
  C1. Insert/lookup consistency: for every table, every 64-bit uid and every storage
  index, when \<^verbatim>\<open>add_individual(uid, index)\<close> returns normally, \<^verbatim>\<open>get_index(uid)\<close> on the
  table it leaves returns that index.
\<close>

theorem insert_then_lookup:
  "add_individual self uid index = (Inr (), self') \<Longrightarrow> get_index self' uid = Inr index"
  by (rule get_index_add)

theorem insert_then_lookup_witness:
  "add_individual (UidMap_init 2 3 1 2) 29 7 =
     (Inr (), (UidMap_init 2 3 1 2)\<lparr>mapping :=
        [None, Some [None, Some [None,
           Some [(sentinel, 0), (7, 29), (sentinel, 0), (sentinel, 0)], None, None]]]\<rparr>) \<and>
   get_index ((UidMap_init 2 3 1 2)\<lparr>mapping :=
        [None, Some [None, Some [None,
           Some [(sentinel, 0), (7, 29), (sentinel, 0), (sentinel, 0)], None, None]]]\<rparr>) 29 = Inr 7"
proof -
  have h: "add_individual (UidMap_init 2 3 1 2) 29 7 =
     (Inr (), (UidMap_init 2 3 1 2)\<lparr>mapping :=
        [None, Some [None, Some [None,
           Some [(sentinel, 0), (7, 29), (sentinel, 0), (sentinel, 0)], None, None]]]\<rparr>)"
    by code_simp
  from h insert_then_lookup [OF h] show ?thesis by (intro conjI)
qed

section \<open>The codec\<close>









section \<open>Construction\<close>

text \<open>
  C5, as stated, fails: \<^verbatim>\<open>__init__\<close> validates nothing and has no failing path. With
  7 time bits and 8 day bits (100 time steps, years of 256 days) the uint32 subtraction
  wraps, \<^verbatim>\<open>year_bits\<close> is \<open>2 ^ 32 - 1\<close>, and the constructor returns a table whose
  top-level list is empty; with widths 40, 20 and 10, which add up to 70, it returns a
  table of 4096 years.
\<close>

theorem init_counterexample:
  "unat (7 :: u32) < unat (8 :: u32) \<and>
   UidMap_init 14 7 3 8 =
     \<lparr>pop_bits = 14, time_bits = 7, child_bits = 3, day_bits = 8, year_bits = 4294967295,
      ssn_offset = 10, child_offset = 7, child_mask = 7, time_mask = 127, day_mask = 255,
      mapping = []\<rparr> \<and>
   64 < unat (40 :: u32) + unat (20 :: u32) + unat (10 :: u32) \<and>
   length (mapping (UidMap_init 40 20 10 8)) = 4096"
  by (simp add: UidMap_init_def lshift1_def none_list_def Let_def
        unsigned_minus_1_eq_mask mask_eq_exp_minus_1)

text \<open>
  C5, amended. \<^verbatim>\<open>__init__\<close> checks none of its widths and always returns a table, in
  which only the top-level list exists and every entry of it is unallocated. When
  \<open>day_bits \<le> time_bits\<close> and \<open>time_bits - day_bits < 32\<close>, that list has length
  \<open>2 ^ year_bits\<close>, \<open>year_bits = time_bits - day_bits\<close>.
\<close>

theorem init_allocates:
  "set (mapping (UidMap_init pb tb cb db)) \<subseteq> {None} \<and>
   (unat db \<le> unat tb \<and> unat tb - unat db < 32 \<longrightarrow>
      unat (year_bits (UidMap_init pb tb cb db)) = unat tb - unat db \<and>
      length (mapping (UidMap_init pb tb cb db)) = 2 ^ (unat tb - unat db))"
proof (intro conjI impI)
  show "set (mapping (UidMap_init pb tb cb db)) \<subseteq> {None}"
    by (auto simp: UidMap_init_def Let_def none_list_def)
next
  assume h: "unat db \<le> unat tb \<and> unat tb - unat db < 32"
  then have "db \<le> tb" by (simp add: word_le_nat_alt)
  then have y: "unat (tb - db) = unat tb - unat db" by (simp add: unat_sub)
  then show "unat (year_bits (UidMap_init pb tb cb db)) = unat tb - unat db"
    by (simp add: UidMap_init_def Let_def)
  have "unat (tb - db) < 32" using h y by simp
  then have n: "unat (word_of_int (lshift1 (tb - db)) :: u32) = 2 ^ unat (tb - db)"
    by (rule num_years)
  show "length (mapping (UidMap_init pb tb cb db)) = 2 ^ (unat tb - unat db)"
    using n y by (simp add: UidMap_init_def Let_def none_list_def)
qed

theorem init_allocates_witness:
  "unat (8 :: u32) \<le> unat (13 :: u32) \<and> unat (13 :: u32) - unat (8 :: u32) < 32 \<and>
   unat (year_bits (UidMap_init 14 13 3 8)) = 5 \<and>
   length (mapping (UidMap_init 14 13 3 8)) = 32"
proof -
  have h: "unat (8 :: u32) \<le> unat (13 :: u32) \<and> unat (13 :: u32) - unat (8 :: u32) < 32"
    by simp
  with init_allocates [of 14 13 3 8]
  have "unat (year_bits (UidMap_init 14 13 3 8)) = unat (13 :: u32) - unat (8 :: u32) \<and>
      length (mapping (UidMap_init 14 13 3 8)) = 2 ^ (unat (13 :: u32) - unat (8 :: u32))"
    by blast
  with h show ?thesis by simp
qed

section \<open>Enumeration\<close>

text \<open>
  C8. Enumeration order and purity: \<^verbatim>\<open>uids()\<close> yields the uid column of the bound rows
  in the order of their coordinates, year first, then child slot, then day, then serial
  number. \<open>rows\<close> lists each bound coordinate with its row, once and in strictly
  ascending order; unallocated entries contribute nothing and are not allocated, and the
  table after the enumeration is the table before it.
\<close>

theorem uids_in_order:
  "fst (uids self) = map (snd \<circ> snd) (rows self) \<and>
   sorted_wrt (<) (map fst (rows self)) \<and>
   (\<forall>k row. (k, row) \<in> set (rows self) \<longleftrightarrow> binding self k = Some row) \<and>
   snd (uids self) = self"
  by (simp add: uids_rows sorted_rows set_rows_binding) (simp add: uids_def)

theorem uids_in_order_witness:
  "fst (uids (snd (add_all (UidMap_init 2 3 1 2) [(29, 7), (2, 9), (13, 3)]))) = [2, 13, 29] \<and>
   map fst (rows (snd (add_all (UidMap_init 2 3 1 2) [(29, 7), (2, 9), (13, 3)])))
     = [(0, 0, 2, 0), (1, 1, 1, 0), (1, 1, 1, 1)]"
proof -
  let ?T = "snd (add_all (UidMap_init 2 3 1 2) [(29, 7), (2, 9), (13, 3)])"
  have r: "rows ?T = [((0, 0, 2, 0), (9, 2)), ((1, 1, 1, 0), (3, 13)), ((1, 1, 1, 1), (7, 29))]"
    by code_simp
  from uids_in_order [of ?T] have "fst (uids ?T) = map (snd \<circ> snd) (rows ?T)" by blast
  then show ?thesis unfolding r by simp
qed

section \<open>Tables and their history\<close>



lemma binding_get_index:
  assumes "binding self (coords self uid) = Some (i, u)"
  shows "get_index self uid = Inr i"
proof -
  obtain ssn child day year where p: "parse_uid self uid = (ssn, child, day, year)"
    by (cases "parse_uid self uid")
  from assms obtain cl where cl: "entry (mapping self) (unat year) = Some cl"
    and 1: "binding_child cl (unat child, unat day, unat ssn) = Some (i, u)"
    by (auto simp: binding_def coords_def p split: option.splits)
  from 1 obtain dl where dl: "entry cl (unat child) = Some dl"
    and 2: "binding_day dl (unat day, unat ssn) = Some (i, u)"
    by (auto split: option.splits)
  from 2 obtain a where a: "entry dl (unat day) = Some a"
    and 3: "binding_ssn a (unat ssn) = Some (i, u)"
    by (auto split: option.splits)
  from 3 have s: "unat ssn < length a" "a ! unat ssn = (i, u)"
    by (auto simp: binding_ssn_def split: if_splits)
  from cl dl a have "unat year < length (mapping self)" "mapping self ! unat year = Some cl"
    "unat child < length cl" "cl ! unat child = Some dl"
    "unat day < length dl" "dl ! unat day = Some a"
    by (auto simp: entry_def split: if_splits)
  with s show ?thesis
    by (simp add: get_index_def p)
qed

lemma tracks_reached:
  assumes "add_all (UidMap_init pb tb cb db) ops = (Inr (), self)"
  shows "layout self = layout (UidMap_init pb tb cb db)" and "tracks self ops"
  using tracks_add_all [OF refl tracks_init assms] by simp_all

text \<open>
  C3, as stated, fails: a uid inserted with the storage index \<^verbatim>\<open>0xFFFFFFFFFFFFFFFF\<close> is
  never overwritten, yet \<^verbatim>\<open>uids()\<close> leaves it out, because the enumeration takes that
  index for the mark of an empty row.
\<close>

theorem uids_counterexample:
  "fst (add_individual (UidMap_init 2 3 1 2) 29 0xFFFFFFFFFFFFFFFF) = Inr () \<and>
   fst (uids (snd (add_individual (UidMap_init 2 3 1 2) 29 0xFFFFFFFFFFFFFFFF))) = []"
  by code_simp

text \<open>
  C3, amended. Enumeration completeness and overwrite semantics: after any sequence of
  insertions into a new table that all return normally, the set of uids that \<^verbatim>\<open>uids()\<close>
  yields is exactly the set of uids whose last insertion carried an index other than the
  sentinel, no uid is yielded twice, and the lookup of such a uid returns the index of its
  last insertion. Two different uids never decode to the same coordinate, so a row is
  only ever overwritten by a later insertion of the same uid.
\<close>

theorem uids_complete:
  assumes "add_all (UidMap_init pb tb cb db) ops = (Inr (), self)"
  shows "set (fst (uids self)) =
           {uid. \<exists>index. map_of (rev ops) uid = Some index \<and> index \<noteq> sentinel} \<and>
         distinct (fst (uids self)) \<and>
         (\<forall>uid index. map_of (rev ops) uid = Some index \<and> index \<noteq> sentinel \<longrightarrow>
            get_index self uid = Inr index)"
proof -
  note t = tracks_reached(2) [OF assms]
  have "get_index self uid = Inr index"
    if "map_of (rev ops) uid = Some index \<and> index \<noteq> sentinel" for uid index
    using tracks_history [OF t, of uid index] that by (intro binding_get_index) simp
  then show ?thesis
    using t by (simp add: uids_set_tracks uids_distinct_tracks)
qed

theorem uids_complete_witness:
  "add_all (UidMap_init 2 3 1 2) [(29, 7), (2, 9), (29, 3)] =
     (Inr (), snd (add_all (UidMap_init 2 3 1 2) [(29, 7), (2, 9), (29, 3)])) \<and>
   set (fst (uids (snd (add_all (UidMap_init 2 3 1 2) [(29, 7), (2, 9), (29, 3)])))) = {2, 29} \<and>
   distinct (fst (uids (snd (add_all (UidMap_init 2 3 1 2) [(29, 7), (2, 9), (29, 3)])))) \<and>
   get_index (snd (add_all (UidMap_init 2 3 1 2) [(29, 7), (2, 9), (29, 3)])) 29 = Inr 3"
proof -
  let ?ops = "[(29, 7), (2, 9), (29, 3)] :: (u64 \<times> u64) list"
  let ?T = "snd (add_all (UidMap_init 2 3 1 2) ?ops)"
  have "fst (add_all (UidMap_init 2 3 1 2) ?ops) = Inr ()" by code_simp
  then have h: "add_all (UidMap_init 2 3 1 2) ?ops = (Inr (), ?T)"
    by (simp add: prod_eq_iff)
  have e: "{uid. \<exists>index. map_of (rev ?ops) uid = Some index \<and> index \<noteq> sentinel} = {2, 29}"
    by (auto simp: sentinel_def)
  have m: "map_of (rev ?ops) 29 = Some 3 \<and> (3 :: u64) \<noteq> sentinel"
    by (simp add: sentinel_def)
  note c = uids_complete [OF h]
  from c m have g: "get_index ?T 29 = Inr 3" by blast
  from c h g show ?thesis
    unfolding e by (intro conjI) simp_all
qed




text \<open>
  C10. Sentinel collision: in a table built by insertions, when \<^verbatim>\<open>add_individual(uid,
  0xFFFFFFFFFFFFFFFF)\<close> returns normally, \<^verbatim>\<open>get_index(uid)\<close> returns the sentinel and
  \<^verbatim>\<open>uids()\<close> does not yield the uid: the row is stored and reads as an empty one.
\<close>

theorem sentinel_insert:
  assumes "add_all (UidMap_init pb tb cb db) ops = (Inr (), self)"
    and "add_individual self uid sentinel = (Inr (), self')"
  shows "get_index self' uid = Inr sentinel \<and> uid \<notin> set (fst (uids self'))"
proof -
  have "tracks self' (ops @ [(uid, sentinel)])"
    using tracks_reached [OF assms(1)] assms(2) by (rule tracks_add)
  then have "set (fst (uids self')) =
      {u. \<exists>i. map_of (rev (ops @ [(uid, sentinel)])) u = Some i \<and> i \<noteq> sentinel}"
    by (rule uids_set_tracks)
  then have "uid \<notin> set (fst (uids self'))" by simp
  with get_index_add [OF assms(2)] show ?thesis by simp
qed

theorem sentinel_insert_witness:
  "add_all (UidMap_init 2 3 1 2) [(29, 7), (2, 9)] =
     (Inr (), snd (add_all (UidMap_init 2 3 1 2) [(29, 7), (2, 9)])) \<and>
   add_individual (snd (add_all (UidMap_init 2 3 1 2) [(29, 7), (2, 9)])) 29 sentinel =
     (Inr (), snd (add_individual (snd (add_all (UidMap_init 2 3 1 2) [(29, 7), (2, 9)])) 29 sentinel)) \<and>
   get_index (snd (add_individual (snd (add_all (UidMap_init 2 3 1 2) [(29, 7), (2, 9)])) 29 sentinel)) 29
     = Inr sentinel \<and>
   fst (uids (snd (add_individual (snd (add_all (UidMap_init 2 3 1 2) [(29, 7), (2, 9)])) 29 sentinel)))
     = [2]"
proof -
  let ?ops = "[(29, 7), (2, 9)] :: (u64 \<times> u64) list"
  let ?T = "snd (add_all (UidMap_init 2 3 1 2) ?ops)"
  let ?T' = "snd (add_individual ?T 29 sentinel)"
  have "fst (add_all (UidMap_init 2 3 1 2) ?ops) = Inr ()" by code_simp
  then have h: "add_all (UidMap_init 2 3 1 2) ?ops = (Inr (), ?T)"
    by (simp add: prod_eq_iff)
  have "fst (add_individual ?T 29 sentinel) = Inr ()" by code_simp
  then have h': "add_individual ?T 29 sentinel = (Inr (), ?T')"
    by (simp add: prod_eq_iff)
  have u: "fst (uids ?T') = [2]" by code_simp
  from sentinel_insert [OF h h'] h h' u show ?thesis by (intro conjI) simp_all
qed

section \<open>Coordinates out of range\<close>














end
